theory Spec2Isabelle
  imports Complex_Main "HOL-Library.Multiset" "HOL-Library.Monad_Syntax"
begin

section \<open>Pixel buffers\<close>

text \<open>
  The pipeline of \<^verbatim>\<open>src/js/services/ImageConverter.js\<close> works on the browser's
  \<^verbatim>\<open>ImageData\<close>: a width, a height and a flat \<^verbatim>\<open>Uint8ClampedArray\<close> holding four
  bytes (R, G, B, A) per pixel. A byte is modelled as a natural number; the stages
  embedded below store only 0, 255 or values clamped to that range. A write to a typed
  array beyond its length is ignored, which is what list update does.
\<close>

type_synonym byte = nat

record imageData =
  width :: nat
  height :: nat
  data :: "byte list"

section \<open>Binarizer: \<^verbatim>\<open>threshold\<close>\<close>

text \<open>
  \<^verbatim>\<open>
  threshold(imageData, level) {
    const data = imageData.data
    const thresh = level * 2.55
    for (let i = 0; i < data.length; i += 4) {
      const value = data[i] > thresh ? 255 : 0
      data[i] = data[i + 1] = data[i + 2] = value
    }
    return imageData
  }
  \<close>
  The loop is the recursion \<open>threshold_loop\<close> on the index \<open>i\<close>, with \<open>d\<close> for the
  array \<^verbatim>\<open>data\<close>. The chained assignment stores right to left.

  The cutoff is a double: the literal \<^verbatim>\<open>2.55\<close> denotes the double nearest to 2.55, and
  \<^verbatim>\<open>*\<close> rounds the exact product to the nearest double, a tie to the even significand.
  \<open>roundToDouble\<close> is that rounding on the reals: 53 significant bits, the exponent not
  below that of the subnormal numbers. A double is the real number it denotes; \<open>level\<close>
  stands for a finite double. A product beyond the range of the doubles is an infinity
  in the source and stays finite here, with the same sign, so that it compares with
  every byte 0..255 in the same way. The comparison of a byte with the cutoff is exact.
\<close>

definition roundHalfEven :: "real \<Rightarrow> int" where
  "roundHalfEven v =
     (let f = \<lfloor>v\<rfloor> in
      if real_of_int f + 1 / 2 < v then f + 1
      else if v < real_of_int f + 1 / 2 then f
      else if even f then f else f + 1)"

definition roundToDouble :: "real \<Rightarrow> real" where
  "roundToDouble v =
     (if v = 0 then 0
      else
        let e = max \<lfloor>log 2 \<bar>v\<bar>\<rfloor> (- 1022);
            ulp = (if 52 \<le> e then 2 ^ nat (e - 52) else 1 / 2 ^ nat (52 - e))
        in real_of_int (roundHalfEven (v / ulp)) * ulp)"

text \<open>The operator \<^verbatim>\<open>*\<close> on two doubles.\<close>

definition jsTimes :: "real \<Rightarrow> real \<Rightarrow> real" where
  "jsTimes a b = roundToDouble (a * b)"

function threshold_loop :: "byte list \<Rightarrow> real \<Rightarrow> nat \<Rightarrow> byte list" where
  "threshold_loop d thresh i =
     (if i < length d then
        let v = (if real (d ! i) > thresh then 255 else 0)
        in threshold_loop (d[i + 2 := v, i + 1 := v, i := v]) thresh (i + 4)
      else d)"
  by pat_completeness auto
termination
  by (relation "measure (\<lambda>(d, thresh, i). length d - i)") auto

definition threshold :: "imageData \<Rightarrow> real \<Rightarrow> imageData" where
  "threshold imageData level =
     (let thresh = jsTimes level (roundToDouble 2.55)
      in imageData\<lparr>data := threshold_loop (data imageData) thresh 0\<rparr>)"

section \<open>Edge detector: \<^verbatim>\<open>detectEdges\<close>\<close>

text \<open>
  The two Sobel kernels are the constant tables of the source. The gradient sums are
  integers (a byte times a kernel entry); \<^verbatim>\<open>Math.sqrt\<close> is the real square root. A
  store into a \<^verbatim>\<open>Uint8ClampedArray\<close> clamps to 0..255 and rounds to the nearest
  integer, ties to even (\<open>toUint8Clamp\<close>). The browser constructs an \<^verbatim>\<open>ImageData\<close>
  only with \<^verbatim>\<open>data.length = 4 * width * height\<close>, so the reads below are in range.
\<close>

definition sobelX :: "int list list" where
  "sobelX = [[-1, 0, 1], [-2, 0, 2], [-1, 0, 1]]"

definition sobelY :: "int list list" where
  "sobelY = [[-1, -2, -1], [0, 0, 0], [1, 2, 1]]"

definition toUint8Clamp :: "real \<Rightarrow> byte" where
  "toUint8Clamp v =
     (if v \<le> 0 then 0
      else if 255 \<le> v then 255
      else let f = \<lfloor>v\<rfloor> in
        if real_of_int f + 1 / 2 < v then nat (f + 1)
        else if v < real_of_int f + 1 / 2 then nat f
        else if even f then nat f else nat (f + 1))"

text \<open>The two inner loops over \<^verbatim>\<open>dy\<close> and \<^verbatim>\<open>dx\<close>, returning \<^verbatim>\<open>(gx, gy)\<close>.\<close>

definition sobelAt :: "imageData \<Rightarrow> int \<Rightarrow> int \<Rightarrow> int \<times> int" where
  "sobelAt imageData x y =
     fold (\<lambda>dy acc.
        fold (\<lambda>dx (gx, gy).
           let idx = ((y + dy) * int (width imageData) + (x + dx)) * 4;
               gray = int (data imageData ! nat idx)
           in (gx + gray * sobelX ! nat (dy + 1) ! nat (dx + 1),
               gy + gray * sobelY ! nat (dy + 1) ! nat (dx + 1)))
          [-1..1] acc)
       [-1..1] (0, 0)"

text \<open>The body of the two outer loops: one interior pixel written into \<^verbatim>\<open>result\<close>.\<close>

definition edgePixel :: "imageData \<Rightarrow> int \<Rightarrow> int \<Rightarrow> byte list \<Rightarrow> byte list" where
  "edgePixel imageData x y result =
     (let (gx, gy) = sobelAt imageData x y;
          magnitude = sqrt (real_of_int (gx * gx + gy * gy));
          idx = nat ((y * int (width imageData) + x) * 4);
          v = toUint8Clamp (min 255 magnitude)
      in result[idx + 2 := v, idx + 1 := v, idx := v, idx + 3 := 255])"

text \<open>
  \<^verbatim>\<open>detectEdges(imageData, radius = 1)\<close>: the parameter \<open>radius\<close> is received and never
  read. The result array starts as zeros and replaces the buffer's bytes at the end.
\<close>

definition detectEdges :: "imageData \<Rightarrow> real \<Rightarrow> imageData" where
  "detectEdges imageData radius =
     (let w = int (width imageData);
          h = int (height imageData);
          result = replicate (length (data imageData)) 0;
          result = fold (\<lambda>y res. fold (\<lambda>x res. edgePixel imageData x y res) [1..w - 2] res)
                     [1..h - 2] result
      in imageData\<lparr>data := result\<rparr>)"

section \<open>Contour tracer: \<^verbatim>\<open>findContours\<close>\<close>

text \<open>
  Pixel coordinates are integers (a step may leave the image by one); a pixel
  \<^verbatim>\<open>{ x, y }\<close> is the pair \<open>(x, y)\<close>. \<open>getPixel\<close> is the source's helper: black outside
  the image, the red byte inside.
\<close>

type_synonym pixel = "int \<times> int"

definition getPixel :: "imageData \<Rightarrow> int \<Rightarrow> int \<Rightarrow> byte" where
  "getPixel imageData x y =
     (if x < 0 \<or> x \<ge> int (width imageData) \<or> y < 0 \<or> y \<ge> int (height imageData) then 0
      else data imageData ! nat ((y * int (width imageData) + x) * 4))"

definition directions :: "(int \<times> int) list" where
  "directions = [(0, -1), (1, -1), (1, 0), (1, 1), (0, 1), (-1, 1), (-1, 0), (-1, -1)]"

text \<open>
  The inner \<^verbatim>\<open>for (let i = 0; i < 8; i++)\<close> of the walk: the first white neighbour in
  the order \<^verbatim>\<open>(dir + i + 5) % 8\<close>, with its direction, or \<open>None\<close> when \<^verbatim>\<open>found\<close>
  stays false.
\<close>

function findNext :: "imageData \<Rightarrow> int \<Rightarrow> int \<Rightarrow> nat \<Rightarrow> nat \<Rightarrow> (int \<times> int \<times> nat) option" where
  "findNext imageData x y dir i =
     (if i < 8 then
        let newDir = (dir + i + 5) mod 8;
            nx = x + fst (directions ! newDir);
            ny = y + snd (directions ! newDir)
        in if getPixel imageData nx ny > 127 then Some (nx, ny, newDir)
           else findNext imageData x y dir (i + 1)
      else None)"
  by pat_completeness auto
termination
  by (relation "measure (\<lambda>(imageData, x, y, dir, i). 8 - i)") auto

text \<open>
  \<^verbatim>\<open>visited[y * width + x] = 1\<close> on a \<^verbatim>\<open>Uint8Array\<close>: a store outside the array is
  ignored.
\<close>

definition markVisited :: "byte list \<Rightarrow> int \<Rightarrow> byte list" where
  "markVisited visited idx = (if 0 \<le> idx then visited[nat idx := 1] else visited)"

text \<open>
  The \<^verbatim>\<open>do ... while (iter < maxIter)\<close> loop of \<^verbatim>\<open>traceContour\<close>. Each call is one
  iteration: push the current pixel, mark it, look for the next pixel, then leave by
  \<^verbatim>\<open>break\<close> (no neighbour found, or back at the start), or by the loop condition, or
  go round again. The locals \<^verbatim>\<open>x, y, dir, firstPoint, iter, contour\<close> and the shared
  array \<^verbatim>\<open>visited\<close> are passed explicitly; the function returns the last two.
\<close>

function traceLoop ::
  "imageData \<Rightarrow> int \<Rightarrow> int \<Rightarrow> int \<Rightarrow> int \<Rightarrow> nat \<Rightarrow> bool \<Rightarrow> nat \<Rightarrow> pixel list \<Rightarrow> byte list
     \<Rightarrow> pixel list \<times> byte list" where
  "traceLoop imageData startX startY x y dir firstPoint iter contour visited =
     (let contour' = contour @ [(x, y)];
          visited' = markVisited visited (y * int (width imageData) + x);
          maxIter = width imageData * height imageData
      in case findNext imageData x y dir 0 of
           None \<Rightarrow> (contour', visited')
         | Some (nx, ny, newDir) \<Rightarrow>
             if \<not> firstPoint \<and> nx = startX \<and> ny = startY then (contour', visited')
             else if iter + 1 < maxIter
               then traceLoop imageData startX startY nx ny newDir False (iter + 1)
                      contour' visited'
               else (contour', visited'))"
  by pat_completeness auto
termination
  by (relation "measure (\<lambda>(imageData, startX, startY, x, y, dir, firstPoint, iter, contour,
        visited). width imageData * height imageData - iter)") auto

definition traceContour :: "imageData \<Rightarrow> byte list \<Rightarrow> int \<Rightarrow> int \<Rightarrow> pixel list \<times> byte list" where
  "traceContour imageData visited startX startY =
     traceLoop imageData startX startY startX startY 7 True 0 [] visited"

text \<open>
  The body of the scan loops at one pixel, on the pair of the \<^verbatim>\<open>visited\<close> array and
  the \<^verbatim>\<open>contours\<close> found so far.
\<close>

definition scanPixel ::
  "imageData \<Rightarrow> int \<Rightarrow> int \<Rightarrow> byte list \<times> pixel list list \<Rightarrow> byte list \<times> pixel list list" where
  "scanPixel imageData x y st =
     (let (visited, contours) = st;
          idx = nat (y * int (width imageData) + x)
      in if visited ! idx \<noteq> 0 then st
         else
           let current = getPixel imageData x y in
           if current > 127 then
             let hasBlackNeighbor =
                   (getPixel imageData (x - 1) y \<le> 127 \<or>
                    getPixel imageData (x + 1) y \<le> 127 \<or>
                    getPixel imageData x (y - 1) \<le> 127 \<or>
                    getPixel imageData x (y + 1) \<le> 127)
             in if hasBlackNeighbor \<and> \<not> visited ! idx \<noteq> 0 then
                  let (contour, visited') = traceContour imageData visited x y
                  in if length contour \<ge> 10 then (visited', contours @ [contour])
                     else (visited', contours)
                else st
           else st)"

text \<open>
  The scan over the interior ring, rows top to bottom and columns left to right;
  \<open>scanContours\<close> returns the final \<^verbatim>\<open>visited\<close> array together with the contours,
  \<open>findContours\<close> the contours alone, as the source does.
\<close>

definition scanContours :: "imageData \<Rightarrow> byte list \<times> pixel list list" where
  "scanContours imageData =
     (let w = int (width imageData);
          h = int (height imageData);
          visited = replicate (width imageData * height imageData) 0
      in fold (\<lambda>y st. fold (\<lambda>x st. scanPixel imageData x y st) [1..w - 2] st)
           [1..h - 2] (visited, []))"

definition findContours :: "imageData \<Rightarrow> pixel list list" where
  "findContours imageData = snd (scanContours imageData)"

section \<open>Contour post-processor\<close>

text \<open>
  A point is the object \<^verbatim>\<open>{ x, y }\<close> of the source, the pair \<open>(x, y)\<close> with \<open>fst\<close> for
  \<^verbatim>\<open>.x\<close> and \<open>snd\<close> for \<^verbatim>\<open>.y\<close>; numbers are modelled as reals. In this typed model every element of a contour is a point with
  two numeric coordinates, so the source's filter
  \<^verbatim>\<open>p && typeof p.x === 'number' && typeof p.y === 'number'\<close> accepts each of them.
\<close>

type_synonym point = "real \<times> real"

definition validPoint :: "point \<Rightarrow> bool" where
  "validPoint p = True"

subsection \<open>\<^verbatim>\<open>pointLineDistance\<close> and \<^verbatim>\<open>simplifyContour\<close>\<close>

definition pointLineDistance :: "point \<Rightarrow> point \<Rightarrow> point \<Rightarrow> real" where
  "pointLineDistance point lineStart lineEnd =
     (let dx = fst lineEnd - fst lineStart;
          dy = snd lineEnd - snd lineStart;
          lenSq = dx * dx + dy * dy
      in if lenSq = 0 then
           sqrt ((fst point - fst lineStart)\<^sup>2 + (snd point - snd lineStart)\<^sup>2)
         else
           let t = ((fst point - fst lineStart) * dx + (snd point - snd lineStart) * dy) / lenSq;
               t = max 0 (min 1 t);
               nearestX = fst lineStart + t * dx;
               nearestY = snd lineStart + t * dy
           in sqrt ((fst point - nearestX)\<^sup>2 + (snd point - nearestY)\<^sup>2))"

text \<open>
  The search loop \<^verbatim>\<open>for (let i = 1; i < validPoints.length - 1; i++)\<close>, returning
  \<^verbatim>\<open>(maxDist, maxIdx)\<close>, both initially 0; \<open>endPt\<close> is the source's \<^verbatim>\<open>end\<close>.
\<close>

definition findMaxDist :: "point list \<Rightarrow> real \<times> nat" where
  "findMaxDist validPoints =
     (let start = validPoints ! 0;
          endPt = validPoints ! (length validPoints - 1)
      in fold (\<lambda>i (maxDist, maxIdx).
            let dist = pointLineDistance (validPoints ! i) start endPt
            in if dist > maxDist then (dist, i) else (maxDist, maxIdx))
           [1..<length validPoints - 1] (0, 0))"

text \<open>
  \<^verbatim>\<open>simplifyContour\<close> calls itself on \<^verbatim>\<open>slice(0, maxIdx + 1)\<close> and \<^verbatim>\<open>slice(maxIdx)\<close>.
  Nothing in its text makes the second slice shorter than the input (with a negative
  tolerance and \<^verbatim>\<open>maxIdx = 0\<close> it is the input itself), so the function is defined as a
  partial function: \<open>None\<close> stands for a call that does not return. The parameter
  \<^verbatim>\<open>points\<close> is written \<open>pts\<close> here and in \<open>smoothContour\<close>.
\<close>

partial_function (option) simplifyContour :: "point list \<Rightarrow> real \<Rightarrow> point list option" where
  "simplifyContour pts tolerance =
     (if length pts \<le> 2 then Some pts
      else
        let validPoints = filter validPoint pts in
        if length validPoints \<le> 2 then Some validPoints
        else
          let (maxDist, maxIdx) = findMaxDist validPoints in
          if maxDist > tolerance then
            do {
              left \<leftarrow> simplifyContour (take (maxIdx + 1) validPoints) tolerance;
              right \<leftarrow> simplifyContour (drop maxIdx validPoints) tolerance;
              Some (butlast left @ right)
            }
          else Some [validPoints ! 0, validPoints ! (length validPoints - 1)])"

declare simplifyContour.simps [code]

subsection \<open>\<^verbatim>\<open>smoothContour\<close>\<close>

text \<open>
  The index \<^verbatim>\<open>(i + j + validPoints.length) % validPoints.length\<close> uses JavaScript's
  remainder, whose sign is that of the dividend. When it is negative the array read
  gives \<^verbatim>\<open>undefined\<close> and reading \<^verbatim>\<open>.x\<close> of it throws a \<^verbatim>\<open>TypeError\<close>. The
  divisor is the length of a contour of at least three points. \<^verbatim>\<open>Math.round\<close> rounds
  to the nearest integer, a tie upwards.
\<close>

datatype error = TypeError

definition jsRem :: "int \<Rightarrow> int \<Rightarrow> int" where
  "jsRem a n = (if a < 0 then - ((- a) mod \<bar>n\<bar>) else a mod \<bar>n\<bar>)"

definition jsRound :: "real \<Rightarrow> real" where
  "jsRound v = real_of_int \<lfloor>v + 1 / 2\<rfloor>"

text \<open>The inner loop over \<^verbatim>\<open>j\<close>: the sums and the count (\<open>cnt\<close>), or the error.\<close>

definition windowSum :: "point list \<Rightarrow> int \<Rightarrow> nat \<Rightarrow> error + real \<times> real \<times> nat" where
  "windowSum validPoints window i =
     fold (\<lambda>j acc.
        case acc of
          Inl e \<Rightarrow> Inl e
        | Inr (sumX, sumY, cnt) \<Rightarrow>
            let idx = jsRem (int i + j + int (length validPoints)) (int (length validPoints))
            in if idx < 0 then Inl TypeError
               else Inr (sumX + fst (validPoints ! nat idx),
                         sumY + snd (validPoints ! nat idx),
                         cnt + 1))
       [- window..window] (Inr (0, 0, 0))"

definition smoothContour :: "point list \<Rightarrow> real \<Rightarrow> error + point list" where
  "smoothContour pts factor =
     (if length pts < 3 then Inr pts
      else
        let validPoints = filter validPoint pts in
        if length validPoints < 3 then Inr validPoints
        else
          let window = max 1 \<lfloor>factor * 3\<rfloor> in
          fold (\<lambda>i acc.
             case acc of
               Inl e \<Rightarrow> Inl e
             | Inr smoothed \<Rightarrow>
                 (case windowSum validPoints window i of
                    Inl e \<Rightarrow> Inl e
                  | Inr (sumX, sumY, cnt) \<Rightarrow>
                      Inr (smoothed @ [(jsRound (sumX / real cnt), jsRound (sumY / real cnt))])))
            [0..<length validPoints] (Inr []))"

subsection \<open>\<^verbatim>\<open>processContours\<close>\<close>

record settings =
  edgeThreshold :: real
  edgeRadius :: real
  grayscale :: bool
  invert :: bool
  blur :: real
  posterize :: real
  minRegionArea :: real
  simplifyTolerance :: real
  smoothing :: real
  strokeWidth :: real
  fillOpacity :: real

record region =
  points :: "point list"
  area :: real
  originalLength :: nat
  simplifiedLength :: nat

text \<open>The shoelace loop of the \<^verbatim>\<open>map\<close> callback, with the final \<^verbatim>\<open>Math.abs(area / 2)\<close>.\<close>

definition shoelace :: "point list \<Rightarrow> real" where
  "shoelace contour =
     (let a = fold (\<lambda>i a.
                 let j = (i + 1) mod length contour;
                     a = a + fst (contour ! i) * snd (contour ! j)
                 in a - fst (contour ! j) * snd (contour ! i))
               [0..<length contour] 0
      in \<bar>a / 2\<bar>)"

text \<open>
  The \<^verbatim>\<open>map\<close> callback. It does not return when \<^verbatim>\<open>simplifyContour\<close> does not
  (\<open>None\<close>), and throws when \<^verbatim>\<open>smoothContour\<close> throws (\<open>Some (Inl e)\<close>).
\<close>

definition toRegion :: "settings \<Rightarrow> point list \<Rightarrow> (error + region) option" where
  "toRegion s contour =
     (let a = shoelace contour in
      case simplifyContour contour (simplifyTolerance s) of
        None \<Rightarrow> None
      | Some simplified \<Rightarrow>
          (case (if smoothing s > 0 then smoothContour simplified (smoothing s)
                 else Inr simplified) of
             Inl e \<Rightarrow> Some (Inl e)
           | Inr smoothed \<Rightarrow>
               Some (Inr \<lparr>points = smoothed, area = a, originalLength = length contour,
                          simplifiedLength = length smoothed\<rparr>)))"

text \<open>\<^verbatim>\<open>contours.map(...)\<close>: the callback on each contour in order; the first failure ends it.\<close>

fun mapRegions :: "settings \<Rightarrow> point list list \<Rightarrow> (error + region list) option" where
  "mapRegions s [] = Some (Inr [])"
| "mapRegions s (contour # contours) =
     (case toRegion s contour of
        None \<Rightarrow> None
      | Some (Inl e) \<Rightarrow> Some (Inl e)
      | Some (Inr r) \<Rightarrow>
          (case mapRegions s contours of
             None \<Rightarrow> None
           | Some (Inl e) \<Rightarrow> Some (Inl e)
           | Some (Inr rs) \<Rightarrow> Some (Inr (r # rs))))"

text \<open>
  \<^verbatim>\<open>.filter((region) => region.area >= this.settings.minRegionArea)\<close> and
  \<^verbatim>\<open>.sort((a, b) => b.area - a.area)\<close>. \<^verbatim>\<open>Array.prototype.sort\<close> is a stable sort
  (ECMAScript 2019), here by descending area, which is the stable insertion sort on the
  key \<open>- area\<close>.
\<close>

definition filterSort :: "settings \<Rightarrow> region list \<Rightarrow> region list" where
  "filterSort s regions =
     sort_key (\<lambda>r. - area r) (filter (\<lambda>r. area r \<ge> minRegionArea s) regions)"

definition processContours :: "settings \<Rightarrow> point list list \<Rightarrow> (error + region list) option" where
  "processContours s contours =
     (case mapRegions s contours of
        None \<Rightarrow> None
      | Some (Inl e) \<Rightarrow> Some (Inl e)
      | Some (Inr regions) \<Rightarrow> Some (Inr (filterSort s regions)))"

section \<open>Predicates and inputs used in the statements\<close>

text \<open>A pixel lies inside the image; a pixel is marked in the \<^verbatim>\<open>visited\<close> bitmap.\<close>

definition inImage :: "imageData \<Rightarrow> pixel \<Rightarrow> bool" where
  "inImage imageData p =
     (0 \<le> fst p \<and> fst p < int (width imageData) \<and> 0 \<le> snd p \<and> snd p < int (height imageData))"

definition marked :: "imageData \<Rightarrow> byte list \<Rightarrow> pixel \<Rightarrow> bool" where
  "marked imageData visited p = (visited ! nat (snd p * int (width imageData) + fst p) = 1)"

text \<open>
  The Moore neighbour of a pixel in direction \<open>d\<close> (an index into \<open>directions\<close>), and a
  pixel none of whose eight neighbours is white.
\<close>

definition neighbour :: "pixel \<Rightarrow> nat \<Rightarrow> pixel" where
  "neighbour p d = (fst p + fst (directions ! d), snd p + snd (directions ! d))"

definition noWhiteNeighbour :: "imageData \<Rightarrow> pixel \<Rightarrow> bool" where
  "noWhiteNeighbour imageData p =
     (\<forall>d\<in>set [0..<8]. getPixel imageData (fst (neighbour p d)) (snd (neighbour p d)) \<le> 127)"

text \<open>
  The invariant of the scan: the bitmap has one byte per pixel, every pixel of every
  contour kept so far is inside the image and marked, and the first pixel of a contour
  occurs in no contour kept before it.
\<close>

definition scanInv :: "imageData \<Rightarrow> byte list \<times> pixel list list \<Rightarrow> bool" where
  "scanInv imageData st =
     (length (fst st) = width imageData * height imageData \<and>
      (\<forall>c\<in>set (snd st). \<forall>p\<in>set c. inImage imageData p \<and> marked imageData (fst st) p) \<and>
      (\<forall>i j. i < j \<and> j < length (snd st) \<longrightarrow> hd (snd st ! j) \<notin> set (snd st ! i)))"

text \<open>
  An opaque grey image from one byte per pixel, and a binarized 6 by 6 image with a
  black border and seven white pixels (\<open>#\<close>), rows top to bottom:
  \<^verbatim>\<open>
    . . . . . .
    . . # # . .
    . # . . . .
    . # . # . .
    . . # . # .
    . . . . . .
  \<close>
  with the two contours the tracer returns for it, the bitmap after the first walk and
  the bitmap the scan ends with.
\<close>

definition greyImage :: "nat \<Rightarrow> nat \<Rightarrow> byte list \<Rightarrow> imageData" where
  "greyImage w h greys = \<lparr>width = w, height = h, data = concat (map (\<lambda>g. [g, g, g, 255]) greys)\<rparr>"

definition overlapImage :: imageData where
  "overlapImage = greyImage 6 6
     [0, 0,   0,   0,   0,   0,
      0, 0,   255, 255, 0,   0,
      0, 255, 0,   0,   0,   0,
      0, 255, 0,   255, 0,   0,
      0, 0,   255, 0,   255, 0,
      0, 0,   0,   0,   0,   0]"

definition overlapFirst :: "pixel list" where
  "overlapFirst =
     [(2, 1), (1, 2), (1, 3), (2, 4), (3, 3), (4, 4), (3, 3), (2, 4), (1, 3), (1, 2)]"

definition overlapSecond :: "pixel list" where
  "overlapSecond =
     [(3, 1), (2, 1), (1, 2), (1, 3), (2, 4), (3, 3), (4, 4), (3, 3), (2, 4), (1, 3), (1, 2),
      (2, 1)]"

definition overlapVisitedFirst :: "byte list" where
  "overlapVisitedFirst =
     [0, 0, 0, 0, 0, 0,
      0, 0, 1, 0, 0, 0,
      0, 1, 0, 0, 0, 0,
      0, 1, 0, 1, 0, 0,
      0, 0, 1, 0, 1, 0,
      0, 0, 0, 0, 0, 0]"

definition overlapVisited :: "byte list" where
  "overlapVisited =
     [0, 0, 0, 0, 0, 0,
      0, 0, 1, 1, 0, 0,
      0, 1, 0, 0, 0, 0,
      0, 1, 0, 1, 0, 0,
      0, 0, 1, 0, 1, 0,
      0, 0, 0, 0, 0, 0]"

text \<open>
  Settings (the defaults, with \<^verbatim>\<open>minRegionArea = 2\<close> and smoothing off) and four
  triangles of areas 1, 2, 4 and 2, with the regions the \<^verbatim>\<open>map\<close> callback makes of them.
\<close>

definition exampleSettings :: settings where
  "exampleSettings =
     \<lparr>edgeThreshold = 50, edgeRadius = 2, grayscale = True, invert = True, blur = 1,
      posterize = 0, minRegionArea = 2, simplifyTolerance = 2, smoothing = 0,
      strokeWidth = 1, fillOpacity = 0.1\<rparr>"

definition triangleA :: "point list" where "triangleA = [(0, 0), (1, 1), (2, 0)]"
definition triangleB :: "point list" where "triangleB = [(0, 0), (2, 1), (4, 0)]"
definition triangleC :: "point list" where "triangleC = [(0, 0), (2, 2), (4, 0)]"
definition triangleD :: "point list" where "triangleD = [(1, 0), (3, 1), (5, 0)]"

definition regionA :: region where
  "regionA = \<lparr>points = [(0, 0), (2, 0)], area = 1, originalLength = 3, simplifiedLength = 2\<rparr>"
definition regionB :: region where
  "regionB = \<lparr>points = [(0, 0), (4, 0)], area = 2, originalLength = 3, simplifiedLength = 2\<rparr>"
definition regionC :: region where
  "regionC = \<lparr>points = [(0, 0), (4, 0)], area = 4, originalLength = 3, simplifiedLength = 2\<rparr>"
definition regionD :: region where
  "regionD = \<lparr>points = [(1, 0), (5, 0)], area = 2, originalLength = 3, simplifiedLength = 2\<rparr>"

section \<open>Properties of \<^verbatim>\<open>threshold\<close>\<close>

declare threshold_loop.simps [simp del]

lemma length_threshold_loop: "length (threshold_loop d t i) = length d"
proof (induction d t i rule: threshold_loop.induct)
  case (1 d t i)
  show ?case
  proof (cases "i < length d")
    case True
    with "1.IH" show ?thesis
      by (subst threshold_loop.simps) (simp add: Let_def)
  next
    case False
    then show ?thesis
      by (subst threshold_loop.simps) simp
  qed
qed

text \<open>
  What the loop started at a pixel boundary \<open>i\<close> leaves at index \<open>j\<close>: bytes before \<open>i\<close>
  and alpha bytes are untouched; a colour byte holds the verdict on the red byte of its
  own pixel.
\<close>

lemma threshold_loop_nth:
  "i mod 4 = 0 \<Longrightarrow> j < length d \<Longrightarrow>
   threshold_loop d t i ! j =
     (if j < i \<or> j mod 4 = 3 then d ! j
      else if real (d ! (j - j mod 4)) > t then 255 else 0)"
proof (induction d t i rule: threshold_loop.induct)
  case (1 d t i)
  show ?case
  proof (cases "i < length d")
    case False
    with "1.prems" show ?thesis
      by (subst threshold_loop.simps) simp
  next
    case True
    define v :: byte where "v = (if real (d ! i) > t then 255 else 0)"
    define d' where "d' = d[i + 2 := v, i + 1 := v, i := v]"
    have unfold: "threshold_loop d t i = threshold_loop d' t (i + 4)"
      using True by (subst threshold_loop.simps) (simp add: Let_def v_def d'_def)
    have mod4: "(i + 4) mod 4 = 0"
      using "1.prems"(1) by simp
    have len: "j < length (d[i + 2 := v, i + 1 := v, i := v])"
      using "1.prems"(2) by simp
    have IH: "threshold_loop d' t (i + 4) ! j =
        (if j < i + 4 \<or> j mod 4 = 3 then d' ! j
         else if real (d' ! (j - j mod 4)) > t then 255 else 0)"
      using "1.IH" [OF True v_def mod4 len] by (simp add: d'_def)
    consider (before) "j < i" | (red) "j = i" | (green) "j = i + 1" | (blue) "j = i + 2"
      | (alpha) "j = i + 3" | (after) "i + 4 \<le> j"
      by linarith
    then show ?thesis
    proof cases
      case before
      then show ?thesis
        unfolding unfold IH by (simp add: d'_def)
    next
      case red
      with "1.prems" True show ?thesis
        unfolding unfold IH by (simp add: d'_def v_def)
    next
      case green
      have "(i + 1) mod 4 = 1" using "1.prems"(1) by presburger
      with green "1.prems" True show ?thesis
        unfolding unfold IH by (simp add: d'_def v_def)
    next
      case blue
      have "(i + 2) mod 4 = 2" using "1.prems"(1) by presburger
      with blue "1.prems" True show ?thesis
        unfolding unfold IH by (simp add: d'_def v_def)
    next
      case alpha
      have "(i + 3) mod 4 = 3" using "1.prems"(1) by presburger
      with alpha "1.prems" True show ?thesis
        unfolding unfold IH by (simp add: d'_def)
    next
      case after
      have base: "i + 4 \<le> j - j mod 4"
        using after "1.prems"(1) by presburger
      have same: "d' ! (j - j mod 4) = d ! (j - j mod 4)" "d' ! j = d ! j"
        using base after by (simp_all add: d'_def)
      from after show ?thesis
        unfolding unfold IH same by simp
    qed
  qed
qed

lemma threshold_colour_byte:
  assumes "4 * p + c < length (data imageData)" and "c < 3"
  shows "data (threshold imageData level) ! (4 * p + c) =
           (if real (data imageData ! (4 * p)) > jsTimes level (roundToDouble 2.55)
            then 255 else 0)"
proof -
  define t where "t = jsTimes level (roundToDouble 2.55)"
  have m: "(4 * p + c) mod 4 = c"
    using assms(2) by simp
  have "threshold_loop (data imageData) t 0 ! (4 * p + c) =
          (if real (data imageData ! (4 * p + c - (4 * p + c) mod 4)) > t then 255 else 0)"
    using assms threshold_loop_nth [of 0 "4 * p + c" "data imageData" t]
    unfolding m by simp
  then show ?thesis
    unfolding m by (simp add: threshold_def Let_def t_def)
qed

text \<open>
  The cutoff at given levels. A double in \<open>[2 ^ e, 2 ^ (e + 1))\<close> is a multiple of
  \<open>2 ^ (e - 52)\<close>. The literal \<^verbatim>\<open>2.55\<close> is a little below 2.55, and so is the cutoff at
  level 100 a little below 255: \<^verbatim>\<open>100 * 2.55\<close> is \<^verbatim>\<open>254.99999999999997\<close>. At level 20 the
  exact product lies halfway between two doubles and rounds to 51.
\<close>

lemma roundToDouble_normal:
  assumes "0 < v" and "2 ^ nat e \<le> v" and "v < 2 ^ nat (e + 1)" and "0 \<le> e" and "e < 52"
  shows "roundToDouble v = real_of_int (roundHalfEven (v * 2 ^ nat (52 - e))) / 2 ^ nat (52 - e)"
proof -
  have p: "(2::real) powr real_of_int e = 2 ^ nat e"
    using assms(4) by (simp add: powr_int)
  have "(2::real) powr real_of_int (e + 1) = 2 powr real_of_int e * 2 powr 1"
    by (simp add: powr_add)
  with p have p1: "(2::real) powr real_of_int (e + 1) = 2 * 2 ^ nat e"
    by simp
  have "v < 2 * 2 ^ nat e"
    using assms(3,4) by (simp add: nat_add_distrib)
  with assms(1,2) p p1 have "\<lfloor>log 2 v\<rfloor> = e"
    by (subst floor_log_eq_powr_iff) simp_all
  with assms show ?thesis
    by (simp add: roundToDouble_def Let_def)
qed

lemma literal_2_55: "roundToDouble 2.55 = 5742089524897382 / 2 ^ 51"
proof -
  have "roundToDouble 2.55 =
      real_of_int (roundHalfEven (2.55 * 2 ^ nat (52 - 1))) / 2 ^ nat (52 - 1)"
    by (rule roundToDouble_normal) simp_all
  moreover have "roundHalfEven (2.55 * 2 ^ nat (52 - 1)) = 5742089524897382"
    by (simp add: roundHalfEven_def Let_def)
  ultimately show ?thesis
    by simp
qed

lemma cutoff_level_100: "jsTimes 100 (roundToDouble 2.55) = 8972014882652159 / 2 ^ 45"
proof -
  define v :: real where "v = 100 * (5742089524897382 / 2 ^ 51)"
  have "jsTimes 100 (roundToDouble 2.55) = roundToDouble v"
    by (simp only: jsTimes_def literal_2_55 v_def)
  also have "\<dots> = real_of_int (roundHalfEven (v * 2 ^ nat (52 - 7))) / 2 ^ nat (52 - 7)"
    by (rule roundToDouble_normal) (simp_all add: v_def)
  also have "roundHalfEven (v * 2 ^ nat (52 - 7)) = 8972014882652159"
    by (simp add: v_def roundHalfEven_def Let_def)
  finally show ?thesis
    by simp
qed

lemma cutoff_level_20: "jsTimes 20 (roundToDouble 2.55) = 51"
proof -
  define v :: real where "v = 20 * (5742089524897382 / 2 ^ 51)"
  have "jsTimes 20 (roundToDouble 2.55) = roundToDouble v"
    by (simp only: jsTimes_def literal_2_55 v_def)
  also have "\<dots> = real_of_int (roundHalfEven (v * 2 ^ nat (52 - 5))) / 2 ^ nat (52 - 5)"
    by (rule roundToDouble_normal) (simp_all add: v_def)
  also have "roundHalfEven (v * 2 ^ nat (52 - 5)) = 7177611906121728"
    by (simp add: v_def roundHalfEven_def Let_def)
  finally show ?thesis
    by simp
qed

text \<open>
  C3. After \<^verbatim>\<open>threshold(level)\<close>, each colour byte (channel \<open>c < 3\<close>: R, G or B) of each
  pixel \<open>p\<close> of the buffer is exactly 0 or 255, and it is 255 exactly when the pixel's
  value, the red byte \<^verbatim>\<open>data[i]\<close> the source compares, is strictly greater than the
  cutoff, the double that \<^verbatim>\<open>level * 2.55\<close> evaluates to. Nothing is stated about the alpha
  byte.
\<close>

theorem threshold_binary:
  assumes "4 * p + c < length (data imageData)" and "c < 3"
  shows "data (threshold imageData level) ! (4 * p + c) \<in> {0, 255} \<and>
         (data (threshold imageData level) ! (4 * p + c) = 255
            \<longleftrightarrow> real (data imageData ! (4 * p)) > jsTimes level (roundToDouble 2.55)) \<and>
         (data (threshold imageData level) ! (4 * p + c) = 0
            \<longleftrightarrow> \<not> real (data imageData ! (4 * p)) > jsTimes level (roundToDouble 2.55))"
  using threshold_colour_byte [OF assms, of level] by simp

theorem threshold_binary_witness:
  "4 * 0 + 1 < length (data \<lparr>width = 1, height = 1, data = [255, 10, 20, 255]\<rparr>) \<and> (1::nat) < 3 \<and>
   data (threshold \<lparr>width = 1, height = 1, data = [255, 10, 20, 255]\<rparr> 100) ! (4 * 0 + 1) = 255"
  using threshold_binary [of 0 1 "\<lparr>width = 1, height = 1, data = [255, 10, 20, 255]\<rparr>" 100]
    cutoff_level_100
  by simp

lemma threshold_level_20:
  "data (threshold \<lparr>width = 1, height = 1, data = [51, 10, 20, 255]\<rparr> 20) = [0, 0, 0, 255] \<and>
   data (threshold \<lparr>width = 1, height = 1, data = [52, 10, 20, 255]\<rparr> 20) = [255, 255, 255, 255]"
  using cutoff_level_20 by (simp add: threshold_def threshold_loop.simps)

text \<open>
  C10. The verdict reads the red byte only: two buffers of the same length that agree
  on the red byte of every pixel get the same R, G and B bytes from \<^verbatim>\<open>threshold\<close>,
  whatever their green and blue bytes were.
\<close>

theorem threshold_reads_red_only:
  assumes "length (data a) = length (data b)"
    and "\<forall>q. 4 * q < length (data a) \<longrightarrow> data a ! (4 * q) = data b ! (4 * q)"
    and "4 * p + c < length (data a)" and "c < 3"
  shows "data (threshold a level) ! (4 * p + c) = data (threshold b level) ! (4 * p + c)"
proof -
  have red: "data a ! (4 * p) = data b ! (4 * p)"
    using assms(2,3) by simp
  have "4 * p + c < length (data b)"
    using assms(1,3) by simp
  then show ?thesis
    using threshold_colour_byte [OF assms(3,4), of level]
      threshold_colour_byte [OF _ assms(4), of p b level] red
    by simp
qed

theorem threshold_reads_red_only_witness:
  "length (data \<lparr>width = 1, height = 1, data = [200, 10, 20, 255]\<rparr>) =
     length (data \<lparr>width = 1, height = 1, data = [200, 90, 80, 70]\<rparr>) \<and>
   data \<lparr>width = 1, height = 1, data = [200, 10, 20, 255]\<rparr> ! 0 =
     data \<lparr>width = 1, height = 1, data = [200, 90, 80, 70]\<rparr> ! 0 \<and>
   data (threshold \<lparr>width = 1, height = 1, data = [200, 10, 20, 255]\<rparr> 50) ! (4 * 0 + 2) =
   data (threshold \<lparr>width = 1, height = 1, data = [200, 90, 80, 70]\<rparr> 50) ! (4 * 0 + 2)"
proof -
  have agree: "\<forall>q. 4 * q < length (data \<lparr>width = 1, height = 1, data = [200, 10, 20, 255]\<rparr>) \<longrightarrow>
        data \<lparr>width = 1, height = 1, data = [200, 10, 20, 255]\<rparr> ! (4 * q) =
        data \<lparr>width = 1, height = 1, data = [200, 90, 80, 70]\<rparr> ! (4 * q)"
  proof (intro allI impI)
    fix q :: nat
    assume "4 * q < length (data \<lparr>width = 1, height = 1, data = [200, 10, 20, 255]\<rparr>)"
    then have "q = 0" by simp
    then show "data \<lparr>width = 1, height = 1, data = [200, 10, 20, 255]\<rparr> ! (4 * q) =
        data \<lparr>width = 1, height = 1, data = [200, 90, 80, 70]\<rparr> ! (4 * q)"
      by simp
  qed
  show ?thesis
    using agree
      threshold_reads_red_only [of "\<lparr>width = 1, height = 1, data = [200, 10, 20, 255]\<rparr>"
        "\<lparr>width = 1, height = 1, data = [200, 90, 80, 70]\<rparr>" 0 2 50]
    by simp
qed

section \<open>Properties of \<^verbatim>\<open>simplifyContour\<close>\<close>

lemma filter_validPoint: "filter validPoint pts = pts"
  by (simp add: validPoint_def)

lemma simplifyContour_short: "length pts \<le> 2 \<Longrightarrow> simplifyContour pts tol = Some pts"
  by (subst simplifyContour.simps) simp

lemma simplifyContour_long:
  "2 < length pts \<Longrightarrow>
   simplifyContour pts tol =
     (if fst (findMaxDist pts) > tol then
        Option.bind (simplifyContour (take (snd (findMaxDist pts) + 1) pts) tol) (\<lambda>left.
        Option.bind (simplifyContour (drop (snd (findMaxDist pts)) pts) tol) (\<lambda>right.
          Some (butlast left @ right)))
      else Some [pts ! 0, pts ! (length pts - 1)])"
  by (subst simplifyContour.simps) (simp add: filter_validPoint Let_def split: prod.splits)

text \<open>
  The search loop from any starting pair: either nothing beat the initial maximum, or the
  maximum grew and its index comes from the range searched.
\<close>

lemma findMax_fold:
  "fold (\<lambda>i (maxDist, maxIdx).
      if f i > maxDist then (f i, i) else (maxDist, maxIdx)) js (m0, i0)
     = (md, mi) \<Longrightarrow>
   (md, mi) = (m0, i0) \<or> ((m0::real) < md \<and> mi \<in> set js)"
proof (induction js arbitrary: m0 i0)
  case Nil
  then show ?case by simp
next
  case (Cons j js)
  show ?case
  proof (cases "f j > m0")
    case True
    with Cons.prems have "fold (\<lambda>i (maxDist, maxIdx).
      if f i > maxDist then (f i, i) else (maxDist, maxIdx)) js (f j, j)
       = (md, mi)"
      by simp
    from Cons.IH [OF this] True show ?thesis
      by auto
  next
    case False
    with Cons.prems have "fold (\<lambda>i (maxDist, maxIdx).
      if f i > maxDist then (f i, i) else (maxDist, maxIdx)) js (m0, i0)
       = (md, mi)"
      by simp
    from Cons.IH [OF this] show ?thesis by auto
  qed
qed

lemma findMaxDist_index:
  assumes "0 < fst (findMaxDist pts)"
  shows "1 \<le> snd (findMaxDist pts) \<and> snd (findMaxDist pts) < length pts - 1"
proof -
  obtain md mi where r: "findMaxDist pts = (md, mi)"
    by (cases "findMaxDist pts")
  then have "(md, mi) = (0, 0) \<or> (0 < md \<and> mi \<in> set [1..<length pts - 1])"
    unfolding findMaxDist_def Let_def by (rule findMax_fold)
  with assms r show ?thesis by auto
qed

lemma simplifyContour_returns:
  assumes "0 \<le> tol"
  shows "\<exists>out. simplifyContour pts tol = Some out \<and> length out \<le> length pts \<and>
           (2 \<le> length pts \<longrightarrow> 2 \<le> length out) \<and>
           (pts \<noteq> [] \<longrightarrow> hd out = hd pts \<and> last out = last pts)"
proof (induction "length pts" arbitrary: pts rule: less_induct)
  case less
  show ?case
  proof (cases "length pts \<le> 2")
    case True
    then show ?thesis by (simp add: simplifyContour_short)
  next
    case False
    then have long: "2 < length pts" by simp
    then have ne: "pts \<noteq> []" by auto
    show ?thesis
    proof (cases "fst (findMaxDist pts) > tol")
      case False
      with long ne show ?thesis
        by (simp add: simplifyContour_long hd_conv_nth last_conv_nth)
    next
      case True
      define k where "k = snd (findMaxDist pts)"
      have k: "1 \<le> k" "k < length pts - 1"
        using findMaxDist_index [of pts] True assms by (simp_all add: k_def)
      have lenL: "length (take (k + 1) pts) = k + 1" and lenR: "length (drop k pts) = length pts - k"
        using k by simp_all
      have shorterL: "length (take (k + 1) pts) < length pts"
        and shorterR: "length (drop k pts) < length pts"
        using k by simp_all
      have neL: "take (k + 1) pts \<noteq> []" and neR: "drop k pts \<noteq> []"
        using k ne by simp_all
      have hdL: "hd (take (k + 1) pts) = hd pts"
        by simp
      have lastR: "last (drop k pts) = last pts"
        using k by simp
      obtain left where left: "simplifyContour (take (k + 1) pts) tol = Some left"
        "length left \<le> k + 1" "2 \<le> length left" "hd left = hd pts"
        using less [OF shorterL] neL hdL unfolding lenL using k by auto
      obtain right where right: "simplifyContour (drop k pts) tol = Some right"
        "length right \<le> length pts - k" "2 \<le> length right" "last right = last pts"
        using less [OF shorterR] neR lastR unfolding lenR using k by auto
      have res: "simplifyContour pts tol = Some (butlast left @ right)"
        using long True left(1) right(1) by (simp add: simplifyContour_long k_def [symmetric])
      have "butlast left \<noteq> []"
        using left(3) by (cases left rule: rev_cases) auto
      then have "hd (butlast left @ right) = hd left"
        using left(3) by (cases left) (auto simp: hd_append)
      moreover have "right \<noteq> []" using right(3) by auto
      then have "last (butlast left @ right) = last right" by simp
      moreover have "length (butlast left @ right) \<le> length pts"
        using left(2,3) right(2) k by simp
      moreover have "2 \<le> length (butlast left @ right)"
        using right(3) by simp
      ultimately show ?thesis
        using res left(4) right(4) by simp
    qed
  qed
qed

lemma simplifyContour_mono:
  assumes "0 \<le> t1" "t1 \<le> t2"
    and "simplifyContour pts t1 = Some o1" and "simplifyContour pts t2 = Some o2"
  shows "length o2 \<le> length o1"
  using assms(3,4)
proof (induction "length pts" arbitrary: pts o1 o2 rule: less_induct)
  case less
  show ?case
  proof (cases "length pts \<le> 2")
    case True
    with less.prems show ?thesis by (simp add: simplifyContour_short)
  next
    case False
    then have long: "2 < length pts" by simp
    define k where "k = snd (findMaxDist pts)"
    show ?thesis
    proof (cases "fst (findMaxDist pts) > t1")
      case False
      with assms(2) have "\<not> fst (findMaxDist pts) > t2" by simp
      with False long less.prems show ?thesis
        by (simp add: simplifyContour_long)
    next
      case True
      have k: "1 \<le> k" "k < length pts - 1"
        using findMaxDist_index [of pts] True assms(1) by (simp_all add: k_def)
      obtain l1 r1 where o1: "simplifyContour (take (k + 1) pts) t1 = Some l1"
        "simplifyContour (drop k pts) t1 = Some r1" "o1 = butlast l1 @ r1"
        using less.prems(1) long True
        by (auto simp: simplifyContour_long k_def [symmetric] split: bind_splits)
      have l1: "2 \<le> length l1"
        using simplifyContour_returns [OF assms(1), of "take (k + 1) pts"] o1(1) k by auto
      have r1: "2 \<le> length r1"
        using simplifyContour_returns [OF assms(1), of "drop k pts"] o1(2) k by auto
      show ?thesis
      proof (cases "fst (findMaxDist pts) > t2")
        case False
        with long less.prems(2) have "length o2 = 2"
          by (auto simp: simplifyContour_long)
        with l1 r1 o1(3) show ?thesis by simp
      next
        case True
        obtain l2 r2 where o2: "simplifyContour (take (k + 1) pts) t2 = Some l2"
          "simplifyContour (drop k pts) t2 = Some r2" "o2 = butlast l2 @ r2"
          using less.prems(2) long True
          by (auto simp: simplifyContour_long k_def [symmetric] split: bind_splits)
        have "length l2 \<le> length l1"
          using less.hyps [of "take (k + 1) pts" l1 l2] o1(1) o2(1) k by simp
        moreover have "length r2 \<le> length r1"
          using less.hyps [of "drop k pts" r1 r2] o1(2) o2(2) k by simp
        ultimately show ?thesis
          using o1(3) o2(3) by simp
      qed
    qed
  qed
qed



text \<open>
  C1. For tolerances \<open>0 \<le> t1 \<le> t2\<close> both simplifications of a contour return, the one
  with the larger tolerance has no more points than the other, and neither has more
  points than the contour.
\<close>

theorem simplify_monotone:
  assumes "0 \<le> t1" and "t1 \<le> t2"
  shows "\<exists>o1 o2. simplifyContour c t1 = Some o1 \<and> simplifyContour c t2 = Some o2 \<and>
           length o2 \<le> length o1 \<and> length o1 \<le> length c"
proof -
  from assms have "0 \<le> t2" by simp
  then obtain o2 where o2: "simplifyContour c t2 = Some o2"
    using simplifyContour_returns [of t2 c] by blast
  obtain o1 where o1: "simplifyContour c t1 = Some o1" "length o1 \<le> length c"
    using simplifyContour_returns [OF assms(1), of c] by blast
  from simplifyContour_mono [OF assms o1(1) o2] o1 o2 show ?thesis
    by simp
qed

lemma findMaxDist_triangleB: "findMaxDist triangleB = (1, 1)"
  by (simp add: findMaxDist_def pointLineDistance_def triangleB_def Let_def)

lemma simplify_triangleB_0: "simplifyContour triangleB 0 = Some triangleB"
  using findMaxDist_triangleB
  by (simp add: simplifyContour_long simplifyContour_short triangleB_def)

lemma simplify_triangleB_2: "simplifyContour triangleB 2 = Some [(0, 0), (4, 0)]"
  using findMaxDist_triangleB
  by (simp add: simplifyContour_long triangleB_def)

theorem simplify_monotone_witness:
  "(0::real) \<le> 0 \<and> (0::real) \<le> 2 \<and>
   simplifyContour triangleB 0 = Some triangleB \<and>
   simplifyContour triangleB 2 = Some [(0, 0), (4, 0)] \<and>
   (\<exists>o1 o2. simplifyContour triangleB 0 = Some o1 \<and> simplifyContour triangleB 2 = Some o2 \<and>
      length o2 \<le> length o1 \<and> length o1 \<le> length triangleB)"
  using simplify_monotone [of 0 2 triangleB] simplify_triangleB_0 simplify_triangleB_2
  by simp

text \<open>
  C6. For a tolerance \<open>\<ge> 0\<close> the simplification returns; the output of a non-empty
  contour starts with the contour's first point and ends with its last point; a contour
  of at most two points is returned unchanged.
\<close>

theorem simplify_endpoints:
  assumes "0 \<le> tol"
  shows "\<exists>out. simplifyContour c tol = Some out \<and>
           (c \<noteq> [] \<longrightarrow> out \<noteq> [] \<and> hd out = hd c \<and> last out = last c) \<and>
           (length c \<le> 2 \<longrightarrow> out = c)"
proof (cases "length c \<le> 2")
  case True
  then show ?thesis by (simp add: simplifyContour_short)
next
  case False
  obtain out where "simplifyContour c tol = Some out" "2 \<le> length out"
    "hd out = hd c" "last out = last c"
    using simplifyContour_returns [OF assms, of c] False by auto
  with False show ?thesis by auto
qed

theorem simplify_endpoints_witness:
  "(0::real) \<le> 2 \<and> triangleB \<noteq> [] \<and>
   (\<exists>out. simplifyContour triangleB 2 = Some out \<and> out \<noteq> [] \<and>
      hd out = hd triangleB \<and> last out = last triangleB)"
  using simplify_endpoints [of 2 triangleB] by (simp add: triangleB_def)

lemma simplify_collinear:
  "simplifyContour [(0, 0), (1, 0), (2, 0), (3, 0), (4, 0)] 0 = Some [(0, 0), (4, 0)]"
  by (simp add: simplifyContour_long findMaxDist_def pointLineDistance_def Let_def)

section \<open>Properties of \<^verbatim>\<open>processContours\<close>\<close>

lemma mapRegions_length:
  "mapRegions s contours = Some (Inr regions) \<Longrightarrow> length regions = length contours"
  by (induction contours arbitrary: regions) (auto split: option.splits sum.splits)

lemma mapRegions_nth:
  "mapRegions s contours = Some (Inr regions) \<Longrightarrow> i < length contours \<Longrightarrow>
   toRegion s (contours ! i) = Some (Inr (regions ! i))"
proof (induction contours arbitrary: regions i)
  case Nil
  then show ?case by simp
next
  case (Cons c cs)
  then show ?case
    by (cases i) (auto split: option.splits sum.splits)
qed

lemma set_filterSort:
  "set (filterSort s regions) = {r \<in> set regions. minRegionArea s \<le> area r}"
  by (auto simp: filterSort_def)

lemma mset_filterSort:
  "mset (filterSort s regions) = filter_mset (\<lambda>r. minRegionArea s \<le> area r) (mset regions)"
  by (simp add: filterSort_def)

lemma sorted_filterSort: "sorted_wrt (\<lambda>a b. area a \<ge> area b) (filterSort s regions)"
proof -
  have "sorted (map (\<lambda>r. - area r) (filterSort s regions))"
    unfolding filterSort_def by (rule sorted_sort_key)
  then show ?thesis
    by (simp add: sorted_map)
qed

lemma stable_filterSort:
  "filter (\<lambda>r. area r = k) (filterSort s regions) =
   filter (\<lambda>r. area r = k) (filter (\<lambda>r. minRegionArea s \<le> area r) regions)"
  using sort_key_stable [of "\<lambda>r. - area r" "- k" "filter (\<lambda>r. minRegionArea s \<le> area r) regions"]
  by (simp add: filterSort_def)

text \<open>
  C4. When the \<^verbatim>\<open>map\<close> stage yields the regions \<open>regions\<close>, \<^verbatim>\<open>processContours\<close> returns
  a list that holds a region exactly when it is one of \<open>regions\<close> with
  \<^verbatim>\<open>area >= minRegionArea\<close>, each as often as it was produced: equality with the bound
  retains, anything below drops.
\<close>

theorem area_filter_inclusive:
  assumes "mapRegions s contours = Some (Inr regions)"
  shows "\<exists>out. processContours s contours = Some (Inr out) \<and>
           (\<forall>r. r \<in> set out \<longleftrightarrow> r \<in> set regions \<and> area r \<ge> minRegionArea s) \<and>
           mset out = filter_mset (\<lambda>r. area r \<ge> minRegionArea s) (mset regions)"
  using assms by (simp add: processContours_def set_filterSort mset_filterSort)

text \<open>
  C5. The list \<^verbatim>\<open>processContours\<close> returns is sorted by descending area, and for every
  area \<open>k\<close> the returned regions of area \<open>k\<close> stand in the order in which the \<^verbatim>\<open>map\<close>
  stage produced them, which is the order of the input contours (\<open>mapRegions_nth\<close>).
\<close>

theorem sort_descending_stable:
  assumes "mapRegions s contours = Some (Inr regions)"
  shows "\<exists>out. processContours s contours = Some (Inr out) \<and>
           sorted_wrt (\<lambda>a b. area a \<ge> area b) out \<and>
           (\<forall>k. filter (\<lambda>r. area r = k) out =
                filter (\<lambda>r. area r = k) (filter (\<lambda>r. area r \<ge> minRegionArea s) regions))"
  using assms by (simp add: processContours_def sorted_filterSort stable_filterSort)


text \<open>
  The \<^verbatim>\<open>map\<close> stage returns for a tolerance \<open>\<ge> 0\<close> and a smoothing factor below 4/3
  (the default is 0.5): the window is then at most 3 and never exceeds the length of a
  contour that is smoothed. With a larger factor, such as 2, the index computed for a
  contour of three points is negative and the read throws (\<open>smoothContour_throws\<close>).
\<close>

lemma jsRem_nonneg: "0 \<le> a \<Longrightarrow> 0 \<le> jsRem a n"
  by (cases "n = 0") (simp_all add: jsRem_def)

lemma windowSum_fold_returns:
  assumes "\<forall>j\<in>set js. 0 \<le> int i + j + int (length vs)"
  shows "\<exists>r. fold (\<lambda>j acc.
        case acc of
          Inl e \<Rightarrow> Inl e
        | Inr (sumX, sumY, cnt) \<Rightarrow>
            let idx = jsRem (int i + j + int (length vs)) (int (length vs))
            in if idx < 0 then Inl TypeError
               else Inr (sumX + fst (vs ! nat idx), sumY + snd (vs ! nat idx), cnt + 1))
       js (Inr acc) = Inr r"
  using assms
proof (induction js arbitrary: acc)
  case Nil
  show ?case by (cases acc) simp
next
  case (Cons j js)
  obtain sx sy cnt where acc: "acc = (sx, sy, cnt)" by (metis prod_cases3)
  from Cons.prems have "0 \<le> jsRem (int i + j + int (length vs)) (int (length vs))"
    by (simp add: jsRem_nonneg)
  then have ok: "\<not> jsRem (int i + j + int (length vs)) (int (length vs)) < 0"
    by simp
  from Cons.prems have rest: "\<forall>j\<in>set js. 0 \<le> int i + j + int (length vs)"
    by simp
  show ?case
    using Cons.IH [OF rest] ok by (simp add: acc Let_def)
qed

lemma windowSum_returns:
  assumes "window \<le> int (length vs)"
  shows "\<exists>r. windowSum vs window i = Inr r"
  unfolding windowSum_def
proof (rule windowSum_fold_returns)
  show "\<forall>j\<in>set [- window..window]. 0 \<le> int i + j + int (length vs)"
    using assms by auto
qed

lemma smooth_fold_returns:
  assumes "window \<le> int (length vs)"
  shows "\<exists>r. fold (\<lambda>i acc.
             case acc of
               Inl e \<Rightarrow> Inl e
             | Inr smoothed \<Rightarrow>
                 (case windowSum vs window i of
                    Inl e \<Rightarrow> Inl e
                  | Inr (sumX, sumY, cnt) \<Rightarrow>
                      Inr (smoothed @ [(jsRound (sumX / real cnt), jsRound (sumY / real cnt))])))
            js (Inr acc) = Inr r"
proof (induction js arbitrary: acc)
  case Nil
  then show ?case by simp
next
  case (Cons i js)
  obtain sx sy cnt where "windowSum vs window i = Inr (sx, sy, cnt)"
    using windowSum_returns [OF assms, of i] by (metis prod_cases3)
  with Cons.IH show ?case by simp
qed

lemma smoothContour_returns:
  assumes "length pts < 3 \<or> max 1 \<lfloor>factor * 3\<rfloor> \<le> int (length pts)"
  shows "\<exists>r. smoothContour pts factor = Inr r"
proof (cases "length pts < 3")
  case True
  then show ?thesis by (simp add: smoothContour_def)
next
  case False
  with assms have "max 1 \<lfloor>factor * 3\<rfloor> \<le> int (length pts)" by simp
  from smooth_fold_returns [OF this, of "[0..<length pts]" "[]"] False show ?thesis
    by (simp add: smoothContour_def validPoint_def Let_def)
qed

lemma smoothContour_throws:
  "smoothContour [(0, 0), (2, 1), (4, 0)] 2 = Inl TypeError"
  by code_simp

lemma toRegion_returns:
  assumes "0 \<le> simplifyTolerance s" and "smoothing s < 4 / 3"
  shows "\<exists>r. toRegion s contour = Some (Inr r)"
proof -
  obtain simplified where simp: "simplifyContour contour (simplifyTolerance s) = Some simplified"
    using simplifyContour_returns [OF assms(1), of contour] by blast
  define k where "k = \<lfloor>smoothing s * 3\<rfloor>"
  have "real_of_int k \<le> smoothing s * 3"
    unfolding k_def by (rule of_int_floor_le)
  with assms(2) have "real_of_int k < 4"
    by simp
  then have "k \<le> 3"
    by linarith
  then have "length simplified < 3 \<or> max 1 k \<le> int (length simplified)"
    by linarith
  then have "length simplified < 3 \<or>
      max 1 \<lfloor>smoothing s * 3\<rfloor> \<le> int (length simplified)"
    unfolding k_def .
  then obtain smoothed where "smoothContour simplified (smoothing s) = Inr smoothed"
    using smoothContour_returns by blast
  with simp show ?thesis
    by (simp add: toRegion_def)
qed

lemma mapRegions_returns:
  assumes "0 \<le> simplifyTolerance s" and "smoothing s < 4 / 3"
  shows "\<exists>regions. mapRegions s contours = Some (Inr regions)"
proof (induction contours)
  case Nil
  show ?case by simp
next
  case (Cons c cs)
  obtain r where "toRegion s c = Some (Inr r)"
    using toRegion_returns [OF assms] by blast
  with Cons.IH show ?case by auto
qed

lemma processContours_returns:
  assumes "0 \<le> simplifyTolerance s" and "smoothing s < 4 / 3"
  shows "\<exists>out. processContours s contours = Some (Inr out)"
  using mapRegions_returns [OF assms, of contours] by (auto simp: processContours_def)

lemma toRegion_triangleA: "toRegion exampleSettings triangleA = Some (Inr regionA)"
proof -
  have "findMaxDist triangleA = (1, 1)"
    by (simp add: findMaxDist_def pointLineDistance_def triangleA_def Let_def)
  then have "simplifyContour triangleA 2 = Some [(0, 0), (2, 0)]"
    by (simp add: simplifyContour_long triangleA_def)
  moreover have "shoelace triangleA = 1"
    by (simp add: shoelace_def triangleA_def Let_def)
  ultimately show ?thesis
    by (simp add: toRegion_def exampleSettings_def regionA_def) (simp add: triangleA_def)
qed

lemma toRegion_triangleB: "toRegion exampleSettings triangleB = Some (Inr regionB)"
proof -
  have "shoelace triangleB = 2"
    by (simp add: shoelace_def triangleB_def Let_def)
  with simplify_triangleB_2 show ?thesis
    by (simp add: toRegion_def exampleSettings_def regionB_def) (simp add: triangleB_def)
qed

lemma toRegion_triangleC: "toRegion exampleSettings triangleC = Some (Inr regionC)"
proof -
  have "findMaxDist triangleC = (2, 1)"
    by (simp add: findMaxDist_def pointLineDistance_def triangleC_def Let_def)
  then have "simplifyContour triangleC 2 = Some [(0, 0), (4, 0)]"
    by (simp add: simplifyContour_long triangleC_def)
  moreover have "shoelace triangleC = 4"
    by (simp add: shoelace_def triangleC_def Let_def)
  ultimately show ?thesis
    by (simp add: toRegion_def exampleSettings_def regionC_def) (simp add: triangleC_def)
qed

lemma toRegion_triangleD: "toRegion exampleSettings triangleD = Some (Inr regionD)"
proof -
  have "findMaxDist triangleD = (1, 1)"
    by (simp add: findMaxDist_def pointLineDistance_def triangleD_def Let_def)
  then have "simplifyContour triangleD 2 = Some [(1, 0), (5, 0)]"
    by (simp add: simplifyContour_long triangleD_def)
  moreover have "shoelace triangleD = 2"
    by (simp add: shoelace_def triangleD_def Let_def)
  ultimately show ?thesis
    by (simp add: toRegion_def exampleSettings_def regionD_def) (simp add: triangleD_def)
qed

lemma mapRegions_triangles:
  "mapRegions exampleSettings [triangleA, triangleB, triangleC, triangleD] =
     Some (Inr [regionA, regionB, regionC, regionD])"
  by (simp add: toRegion_triangleA toRegion_triangleB toRegion_triangleC toRegion_triangleD)

lemma processContours_triangles:
  "processContours exampleSettings [triangleA, triangleB, triangleC, triangleD] =
     Some (Inr [regionC, regionB, regionD])"
proof -
  have "filterSort exampleSettings [regionA, regionB, regionC, regionD] =
      [regionC, regionB, regionD]"
    by (simp add: filterSort_def exampleSettings_def regionA_def regionB_def regionC_def
        regionD_def)
  then show ?thesis
    unfolding processContours_def mapRegions_triangles by simp
qed

theorem area_filter_inclusive_witness:
  "mapRegions exampleSettings [triangleA, triangleB, triangleC, triangleD] =
     Some (Inr [regionA, regionB, regionC, regionD]) \<and>
   area regionB = minRegionArea exampleSettings \<and> area regionA < minRegionArea exampleSettings \<and>
   (\<exists>out. processContours exampleSettings [triangleA, triangleB, triangleC, triangleD]
             = Some (Inr out) \<and> regionB \<in> set out \<and> regionA \<notin> set out)"
proof -
  from area_filter_inclusive [OF mapRegions_triangles]
  obtain out where out:
    "processContours exampleSettings [triangleA, triangleB, triangleC, triangleD] = Some (Inr out)"
    "\<And>r. r \<in> set out \<longleftrightarrow>
       r \<in> set [regionA, regionB, regionC, regionD] \<and> area r \<ge> minRegionArea exampleSettings"
    by blast
  have areas: "area regionB = minRegionArea exampleSettings"
    "area regionA < minRegionArea exampleSettings"
    by (simp_all add: regionA_def regionB_def exampleSettings_def)
  have "regionB \<in> set out" "regionA \<notin> set out"
    using areas by (simp_all add: out(2))
  with out(1) areas mapRegions_triangles show ?thesis
    by simp
qed

theorem sort_descending_stable_witness:
  "mapRegions exampleSettings [triangleA, triangleB, triangleC, triangleD] =
     Some (Inr [regionA, regionB, regionC, regionD]) \<and>
   (\<exists>out. processContours exampleSettings [triangleA, triangleB, triangleC, triangleD]
             = Some (Inr out) \<and>
      sorted_wrt (\<lambda>a b. area a \<ge> area b) out \<and>
      filter (\<lambda>r. area r = 2) out = [regionB, regionD])"
proof -
  from sort_descending_stable [OF mapRegions_triangles]
  obtain out where out:
    "processContours exampleSettings [triangleA, triangleB, triangleC, triangleD] = Some (Inr out)"
    "sorted_wrt (\<lambda>a b. area a \<ge> area b) out"
    "\<And>k. filter (\<lambda>r. area r = k) out =
       filter (\<lambda>r. area r = k)
         (filter (\<lambda>r. area r \<ge> minRegionArea exampleSettings)
            [regionA, regionB, regionC, regionD])"
    by blast
  have "filter (\<lambda>r. area r = 2) out = [regionB, regionD]"
    unfolding out(3)
    by (simp add: regionA_def regionB_def regionC_def regionD_def exampleSettings_def)
  with out(1,2) mapRegions_triangles show ?thesis
    by simp
qed

section \<open>Properties of \<^verbatim>\<open>detectEdges\<close>\<close>

text \<open>
  C8. The output of \<^verbatim>\<open>detectEdges\<close> is the same for any two values of the radius: the
  parameter is never read, the kernels are the fixed 3 by 3 tables.
\<close>

theorem detectEdges_ignores_radius:
  "detectEdges imageData r1 = detectEdges imageData r2"
  by (simp add: detectEdges_def)

section \<open>Properties of the contour tracer\<close>

declare findNext.simps [simp del] traceLoop.simps [simp del]

lemma getPixel_white: "getPixel img x y > 127 \<Longrightarrow> inImage img (x, y)"
  unfolding getPixel_def inImage_def by (simp split: if_splits)

lemma findNext_white:
  "findNext img x y dir i = Some (nx, ny, nd) \<Longrightarrow> getPixel img nx ny > 127"
proof (induction img x y dir i rule: findNext.induct)
  case (1 img x y dir i)
  define newDir where "newDir = (dir + i + 5) mod 8"
  define mx where "mx = x + fst (directions ! newDir)"
  define my where "my = y + snd (directions ! newDir)"
  have unfold: "findNext img x y dir i =
      (if i < 8 then
         if getPixel img mx my > 127 then Some (mx, my, newDir)
         else findNext img x y dir (i + 1)
       else None)"
    by (subst findNext.simps) (simp only: Let_def newDir_def mx_def my_def)
  show ?case
  proof (cases "i < 8")
    case False
    with "1.prems" unfold show ?thesis by simp
  next
    case True
    show ?thesis
    proof (cases "getPixel img mx my > 127")
      case white: True
      with True "1.prems" unfold show ?thesis by simp
    next
      case black: False
      with True "1.prems" unfold have "findNext img x y dir (i + 1) = Some (nx, ny, nd)"
        by simp
      with "1.IH" [OF True newDir_def mx_def my_def] black show ?thesis
        by (simp add: mx_def my_def newDir_def)
    qed
  qed
qed

lemma traceLoop_unfold:
  "traceLoop img sx sy x y dir fp iter c v =
     (case findNext img x y dir 0 of
        None \<Rightarrow> (c @ [(x, y)], markVisited v (y * int (width img) + x))
      | Some (nx, ny, nd) \<Rightarrow>
          if \<not> fp \<and> nx = sx \<and> ny = sy
            then (c @ [(x, y)], markVisited v (y * int (width img) + x))
          else if iter + 1 < width img * height img
            then traceLoop img sx sy nx ny nd False (iter + 1) (c @ [(x, y)])
                   (markVisited v (y * int (width img) + x))
          else (c @ [(x, y)], markVisited v (y * int (width img) + x)))"
  by (subst traceLoop.simps) (simp add: Let_def)

lemma traceLoop_length:
  "length (fst (traceLoop img sx sy x y dir fp iter c v))
     \<le> length c + max 1 (width img * height img - iter)"
proof (induction img sx sy x y dir fp iter c v rule: traceLoop.induct)
  case (1 img sx sy x y dir fp iter c v)
  show ?case
  proof (cases "findNext img x y dir 0")
    case None
    then show ?thesis by (subst traceLoop_unfold) simp
  next
    case (Some r)
    obtain nx ny nd where r: "r = (nx, ny, nd)" by (cases r)
    show ?thesis
    proof (cases "\<not> (\<not> fp \<and> nx = sx \<and> ny = sy) \<and> iter + 1 < width img * height img")
      case False
      with Some r show ?thesis by (subst traceLoop_unfold) auto
    next
      case True
      have "length (fst (traceLoop img sx sy nx ny nd False (iter + 1) (c @ [(x, y)])
               (markVisited v (y * int (width img) + x))))
            \<le> length (c @ [(x, y)]) + max 1 (width img * height img - (iter + 1))"
        using "1.IH" [OF refl refl refl Some [unfolded r] refl refl] True by simp
      with True Some r show ?thesis
        by (subst traceLoop_unfold) auto
    qed
  qed
qed

lemma pixel_index:
  assumes "inImage img (x, y)"
  shows "0 \<le> y * int (width img) + x"
    and "nat (y * int (width img) + x) < width img * height img"
proof -
  from assms have b: "0 \<le> x" "x < int (width img)" "0 \<le> y" "y + 1 \<le> int (height img)"
    by (simp_all add: inImage_def)
  show nonneg: "0 \<le> y * int (width img) + x"
    using b by simp
  have "(y + 1) * int (width img) \<le> int (height img) * int (width img)"
    using b(4) by (rule mult_right_mono) simp
  then have "y * int (width img) + x < int (width img) * int (height img)"
    using b(2) by (simp add: algebra_simps)
  then have "y * int (width img) + x < int (width img * height img)"
    by simp
  with nonneg show "nat (y * int (width img) + x) < width img * height img"
    by linarith
qed


lemma markVisited_inImage:
  assumes "inImage img (x, y)" and "length v = width img * height img"
  shows "length (markVisited v (y * int (width img) + x)) = length v"
    and "marked img (markVisited v (y * int (width img) + x)) (x, y)"
    and "marked img v q \<Longrightarrow> marked img (markVisited v (y * int (width img) + x)) q"
  using pixel_index [OF assms(1)] assms(2)
  by (simp_all add: markVisited_def marked_def nth_list_update)

text \<open>The walk keeps the bitmap's length, only adds marks, pushes the current pixel and
  then only pixels of the image, and leaves every pixel it pushed marked.\<close>

lemma traceLoop_invariant:
  assumes "inImage img (x, y)"
    and "length v = width img * height img"
    and "\<forall>p\<in>set c. inImage img p \<and> marked img v p"
    and "traceLoop img sx sy x y dir fp iter c v = (c', v')"
  shows "length v' = length v \<and>
         (\<forall>p\<in>set c'. inImage img p \<and> marked img v' p) \<and>
         (\<forall>q. marked img v q \<longrightarrow> marked img v' q) \<and>
         (\<exists>rest. c' = c @ (x, y) # rest)"
  using assms
proof (induction img sx sy x y dir fp iter c v rule: traceLoop.induct)
  case (1 img sx sy x y dir fp iter c v)
  define c1 where "c1 = c @ [(x, y)]"
  define v1 where "v1 = markVisited v (y * int (width img) + x)"
  have v1: "length v1 = length v" "marked img v1 (x, y)"
    "\<And>q. marked img v q \<Longrightarrow> marked img v1 q"
    using markVisited_inImage [OF "1.prems"(1,2)] by (simp_all add: v1_def)
  have c1: "\<forall>p\<in>set c1. inImage img p \<and> marked img v1 p"
    using "1.prems"(1,3) v1(2,3) by (auto simp: c1_def)
  have stop: ?case if "(c', v') = (c1, v1)"
    using that v1 c1 by (auto simp: c1_def)
  show ?case
  proof (cases "findNext img x y dir 0")
    case None
    with "1.prems"(4) have "(c', v') = (c1, v1)"
      by (subst (asm) traceLoop_unfold) (simp add: c1_def v1_def)
    then show ?thesis by (rule stop)
  next
    case (Some r)
    obtain nx ny nd where r: "r = (nx, ny, nd)" by (cases r)
    show ?thesis
    proof (cases "\<not> (\<not> fp \<and> nx = sx \<and> ny = sy) \<and> iter + 1 < width img * height img")
      case False
      with "1.prems"(4) Some r have "(c', v') = (c1, v1)"
        by (subst (asm) traceLoop_unfold) (auto simp: c1_def v1_def split: if_splits)
      then show ?thesis by (rule stop)
    next
      case True
      have rec: "traceLoop img sx sy nx ny nd False (iter + 1) c1 v1 = (c', v')"
        using "1.prems"(4) Some r True
        by (subst (asm) traceLoop_unfold) (auto simp: c1_def v1_def split: if_splits)
      have next_in: "inImage img (nx, ny)"
        using Some r findNext_white getPixel_white by blast
      have len1: "length v1 = width img * height img"
        using v1(1) "1.prems"(2) by simp
      have IH: "length v' = length v1 \<and>
         (\<forall>p\<in>set c'. inImage img p \<and> marked img v' p) \<and>
         (\<forall>q. marked img v1 q \<longrightarrow> marked img v' q) \<and>
         (\<exists>rest. c' = c1 @ (nx, ny) # rest)"
        using "1.IH" [OF refl refl refl Some [unfolded r] refl refl _ _ next_in
            len1 [unfolded v1_def] c1 [unfolded c1_def v1_def] rec [unfolded c1_def v1_def]]
          True
        by (simp add: c1_def v1_def)
      then show ?thesis
        using v1 by (auto simp: c1_def)
    qed
  qed
qed


lemma traceContour_invariant:
  assumes "inImage img (x, y)" and "length v = width img * height img"
    and "traceContour img v x y = (c', v')"
  shows "length v' = length v \<and>
         (\<forall>p\<in>set c'. inImage img p \<and> marked img v' p) \<and>
         (\<forall>q. marked img v q \<longrightarrow> marked img v' q) \<and>
         (\<exists>rest. c' = (x, y) # rest)"
  using traceLoop_invariant [OF assms(1,2) _ assms(3) [unfolded traceContour_def]]
  by simp

text \<open>What the scan does at one pixel: nothing, or a walk from that pixel, which was
  not marked, whose contour is kept or dropped.\<close>

lemma scanPixel_cases:
  "scanPixel img x y (v, cs) = (v, cs) \<or>
   (v ! nat (y * int (width img) + x) = 0 \<and>
    (\<exists>c v'. traceContour img v x y = (c, v') \<and>
       (scanPixel img x y (v, cs) = (v', cs @ [c]) \<or>
        scanPixel img x y (v, cs) = (v', cs))))"
  by (auto simp: scanPixel_def Let_def split: prod.splits)

lemma scanPixel_invariant:
  assumes "inImage img (x, y)" and "scanInv img st"
  shows "scanInv img (scanPixel img x y st)"
proof -
  obtain v cs where st: "st = (v, cs)" by (cases st)
  from assms(2) have inv: "length v = width img * height img"
    "\<And>c p. c \<in> set cs \<Longrightarrow> p \<in> set c \<Longrightarrow> inImage img p \<and> marked img v p"
    "\<And>i j. i < j \<Longrightarrow> j < length cs \<Longrightarrow> hd (cs ! j) \<notin> set (cs ! i)"
    by (auto simp: scanInv_def st)
  consider (same) "scanPixel img x y (v, cs) = (v, cs)"
    | (walk) c v' where "v ! nat (y * int (width img) + x) = 0"
        "traceContour img v x y = (c, v')"
        "scanPixel img x y (v, cs) = (v', cs @ [c]) \<or> scanPixel img x y (v, cs) = (v', cs)"
    using scanPixel_cases [of img x y v cs] by blast
  then show ?thesis
  proof cases
    case same
    with assms(2) show ?thesis by (simp add: st)
  next
    case walk
    from traceContour_invariant [OF assms(1) inv(1) walk(2)]
    obtain rest where tr: "length v' = length v"
      "\<And>p. p \<in> set c \<Longrightarrow> inImage img p \<and> marked img v' p"
      "\<And>q. marked img v q \<Longrightarrow> marked img v' q"
      "c = (x, y) # rest"
      by blast
    have old: "inImage img p \<and> marked img v' p" if "d \<in> set cs" "p \<in> set d" for d p
      using inv(2) [OF that] tr(3) by blast
    have fresh: "(x, y) \<notin> set (cs ! i)" if "i < length cs" for i
    proof
      assume "(x, y) \<in> set (cs ! i)"
      with inv(2) [of "cs ! i" "(x, y)"] that have "marked img v (x, y)"
        by simp
      with walk(1) show False
        by (simp add: marked_def)
    qed
    have dropped: "scanInv img (v', cs)"
      unfolding scanInv_def using tr(1) inv(1,3) old by auto
    have order: "hd ((cs @ [c]) ! j) \<notin> set ((cs @ [c]) ! i)"
      if "i < j" "j < length (cs @ [c])" for i j
    proof (cases "j < length cs")
      case True
      with that inv(3) [of i j] show ?thesis
        by (simp add: nth_append)
    next
      case False
      with that have j: "j = length cs" and i: "i < length cs" by simp_all
      show ?thesis
        using fresh [OF i] i by (simp add: j nth_append tr(4))
    qed
    have kept: "scanInv img (v', cs @ [c])"
      unfolding scanInv_def using tr(1,2) inv(1) old order by auto
    from walk(3) dropped kept show ?thesis
      by (auto simp: st)
  qed
qed

lemma scanContours_invariant: "scanInv img (scanContours img)"
proof -
  let ?w = "int (width img)" and ?h = "int (height img)"
  have init: "scanInv img (replicate (width img * height img) 0, [])"
    by (simp add: scanInv_def)
  have row: "scanInv img (fold (\<lambda>x st. scanPixel img x y st) [1..?w - 2] st)"
    if "y \<in> set [1..?h - 2]" "scanInv img st" for y st
  proof (rule fold_invariant [where Q = "\<lambda>x. x \<in> set [1..?w - 2]" and P = "scanInv img"])
    show "scanInv img st" by (rule that)
  next
    fix x st'
    assume "x \<in> set [1..?w - 2]" "scanInv img st'"
    moreover from this that(1) have "inImage img (x, y)"
      by (simp add: inImage_def)
    ultimately show "scanInv img (scanPixel img x y st')"
      by (simp add: scanPixel_invariant)
  qed simp
  have "scanInv img (fold (\<lambda>y st. fold (\<lambda>x st. scanPixel img x y st) [1..?w - 2] st)
           [1..?h - 2] (replicate (width img * height img) 0, []))"
    by (rule fold_invariant [where Q = "\<lambda>y. y \<in> set [1..?h - 2]" and P = "scanInv img"])
       (simp_all add: init row)
  then show ?thesis
    by (simp add: scanContours_def Let_def)
qed


lemma traceLoop_nonempty:
  "length c < length (fst (traceLoop img sx sy x y dir fp iter c v))"
proof (induction img sx sy x y dir fp iter c v rule: traceLoop.induct)
  case (1 img sx sy x y dir fp iter c v)
  show ?case
  proof (cases "findNext img x y dir 0")
    case None
    then show ?thesis by (subst traceLoop_unfold) simp
  next
    case (Some r)
    obtain nx ny nd where r: "r = (nx, ny, nd)" by (cases r)
    show ?thesis
    proof (cases "\<not> (\<not> fp \<and> nx = sx \<and> ny = sy) \<and> iter + 1 < width img * height img")
      case False
      with Some r show ?thesis by (subst traceLoop_unfold) auto
    next
      case True
      have "length (c @ [(x, y)]) <
          length (fst (traceLoop img sx sy nx ny nd False (iter + 1) (c @ [(x, y)])
               (markVisited v (y * int (width img) + x))))"
        using "1.IH" [OF refl refl refl Some [unfolded r] refl refl] True by simp
      with True Some r show ?thesis
        by (subst traceLoop_unfold) auto
    qed
  qed
qed

lemma traceContour_length:
  "1 \<le> length (fst (traceContour imageData visited startX startY)) \<and>
   length (fst (traceContour imageData visited startX startY))
     \<le> width imageData * height imageData + 1"
proof -
  let ?c = "fst (traceContour imageData visited startX startY)"
  have "length ?c \<le> max 1 (width imageData * height imageData)"
    using traceLoop_length [of imageData startX startY startX startY 7 True 0 "[]" visited]
    by (simp add: traceContour_def)
  moreover have "0 < length ?c"
    using traceLoop_nonempty [of "[]" imageData startX startY startX startY 7 True 0 visited]
    by (simp add: traceContour_def)
  ultimately show ?thesis
    by linarith
qed

lemma findNext_step:
  "findNext img x y dir i = Some (nx, ny, nd) \<Longrightarrow> nd < 8 \<and> neighbour (x, y) nd = (nx, ny)"
proof (induction img x y dir i rule: findNext.induct)
  case (1 img x y dir i)
  define newDir where "newDir = (dir + i + 5) mod 8"
  define mx where "mx = x + fst (directions ! newDir)"
  define my where "my = y + snd (directions ! newDir)"
  have unfold: "findNext img x y dir i =
      (if i < 8 then
         if getPixel img mx my > 127 then Some (mx, my, newDir)
         else findNext img x y dir (i + 1)
       else None)"
    by (subst findNext.simps) (simp only: Let_def newDir_def mx_def my_def)
  show ?case
  proof (cases "i < 8")
    case False
    with "1.prems" unfold show ?thesis by simp
  next
    case True
    show ?thesis
    proof (cases "getPixel img mx my > 127")
      case white: True
      with True "1.prems" unfold have "nx = mx" "ny = my" "nd = newDir" by simp_all
      then show ?thesis
        by (simp add: neighbour_def mx_def my_def newDir_def)
    next
      case black: False
      with True "1.prems" unfold have "findNext img x y dir (i + 1) = Some (nx, ny, nd)"
        by simp
      with "1.IH" [OF True newDir_def mx_def my_def] black show ?thesis
        by (simp add: mx_def my_def newDir_def)
    qed
  qed
qed

lemma findNext_None_from:
  "findNext img x y dir i = None \<Longrightarrow> i \<le> k \<Longrightarrow> k < 8 \<Longrightarrow>
   getPixel img (fst (neighbour (x, y) ((dir + k + 5) mod 8)))
     (snd (neighbour (x, y) ((dir + k + 5) mod 8))) \<le> 127"
proof (induction img x y dir i rule: findNext.induct)
  case (1 img x y dir i)
  define newDir where "newDir = (dir + i + 5) mod 8"
  define mx where "mx = x + fst (directions ! newDir)"
  define my where "my = y + snd (directions ! newDir)"
  have unfold: "findNext img x y dir i =
      (if i < 8 then
         if getPixel img mx my > 127 then Some (mx, my, newDir)
         else findNext img x y dir (i + 1)
       else None)"
    by (subst findNext.simps) (simp only: Let_def newDir_def mx_def my_def)
  from "1.prems" have i: "i < 8" by simp
  with "1.prems"(1) unfold have black: "\<not> getPixel img mx my > 127"
    and rest: "findNext img x y dir (i + 1) = None"
    by (simp_all split: if_splits)
  show ?case
  proof (cases "k = i")
    case True
    with black show ?thesis
      by (simp add: neighbour_def mx_def my_def newDir_def)
  next
    case False
    with "1.prems"(2) have "i + 1 \<le> k" by simp
    with "1.IH" [OF i newDir_def mx_def my_def _ rest _ "1.prems"(3)] black show ?thesis
      by (simp add: mx_def my_def newDir_def)
  qed
qed

lemma direction_reached:
  assumes "d < 8"
  shows "\<exists>k<8. (dir + k + 5) mod 8 = (d::nat)"
proof -
  define r where "r = (dir + 5) mod 8"
  have r: "r < 8" by (simp add: r_def)
  define k where "k = (if r \<le> d then d - r else d + 8 - r)"
  have k: "k < 8" using r assms by (auto simp: k_def)
  have "r + k = d \<or> r + k = d + 8"
    using r assms by (auto simp: k_def)
  then have "(r + k) mod 8 = d"
    using assms by auto
  moreover have "(r + k) mod 8 = (dir + 5 + k) mod 8"
    unfolding r_def by (rule mod_add_left_eq)
  moreover have "dir + 5 + k = dir + k + 5"
    by simp
  ultimately have "(dir + k + 5) mod 8 = d"
    by simp
  with k show ?thesis by blast
qed

lemma findNext_None:
  assumes "findNext img x y dir 0 = None"
  shows "noWhiteNeighbour img (x, y)"
  unfolding noWhiteNeighbour_def
proof
  fix d assume "d \<in> set [0..<8]"
  then have "d < 8" by simp
  then obtain k where "k < 8" "(dir + k + 5) mod 8 = d"
    using direction_reached by blast
  with findNext_None_from [OF assms, of k] show
    "getPixel img (fst (neighbour (x, y) d)) (snd (neighbour (x, y) d)) \<le> 127"
    by simp
qed

lemma traceLoop_exit:
  assumes "traceLoop img sx sy x y dir fp iter c v = (c', v')" and "length c = iter"
  shows "noWhiteNeighbour img (last c') \<or> (\<exists>d<8. neighbour (last c') d = (sx, sy)) \<or>
         width img * height img \<le> length c'"
  using assms
proof (induction img sx sy x y dir fp iter c v rule: traceLoop.induct)
  case (1 img sx sy x y dir fp iter c v)
  define c1 where "c1 = c @ [(x, y)]"
  define v1 where "v1 = markVisited v (y * int (width img) + x)"
  show ?case
  proof (cases "findNext img x y dir 0")
    case None
    with "1.prems"(1) have "c' = c1"
      by (subst (asm) traceLoop_unfold) (simp add: c1_def)
    with findNext_None [OF None] show ?thesis
      by (simp add: c1_def)
  next
    case (Some r)
    obtain nx ny nd where r: "r = (nx, ny, nd)" by (cases r)
    from findNext_step [OF Some [unfolded r]]
    have nd: "nd < 8" "neighbour (x, y) nd = (nx, ny)" by simp_all
    consider (returned) "\<not> fp \<and> nx = sx \<and> ny = sy"
      | (cap) "\<not> (\<not> fp \<and> nx = sx \<and> ny = sy)" "\<not> iter + 1 < width img * height img"
      | (again) "\<not> (\<not> fp \<and> nx = sx \<and> ny = sy)" "iter + 1 < width img * height img"
      by blast
    then show ?thesis
    proof cases
      case returned
      with "1.prems"(1) Some r have "c' = c1"
        by (subst (asm) traceLoop_unfold) (auto simp: c1_def)
      with returned nd show ?thesis
        by (auto simp: c1_def)
    next
      case cap
      with "1.prems"(1) Some r have "c' = c1"
        by (subst (asm) traceLoop_unfold) (auto simp: c1_def split: if_splits)
      with cap(2) "1.prems"(2) show ?thesis
        by (simp add: c1_def)
    next
      case again
      have rec: "traceLoop img sx sy nx ny nd False (iter + 1) c1 v1 = (c', v')"
        using "1.prems"(1) Some r again
        by (subst (asm) traceLoop_unfold) (auto simp: c1_def v1_def split: if_splits)
      have len: "length (c @ [(x, y)]) = iter + 1"
        using "1.prems"(2) by simp
      show ?thesis
        using "1.IH" [OF refl refl refl Some [unfolded r] refl refl _ _
            rec [unfolded c1_def v1_def] len] again
        by simp
    qed
  qed
qed

lemma traceContour_overlapImage:
  "traceContour overlapImage (replicate 36 0) 2 1 = (overlapFirst, overlapVisitedFirst)"
  by code_simp

text \<open>
  C7. \<^verbatim>\<open>traceContour\<close> is a total function: its loop is defined by recursion on
  \<^verbatim>\<open>maxIter - iter\<close>, whatever the image, the bitmap and the start. It returns a
  contour, never a failure, with at least the start pixel and at most
  \<^verbatim>\<open>width * height + 1\<close> points. The loop is left in one of three ways: the last pixel
  pushed has no white Moore neighbour; or the step from the last pixel leads to the
  start pixel; or the cap is reached, with \<^verbatim>\<open>width * height\<close> points pushed.
\<close>

theorem traceContour_bounded:
  "1 \<le> length (fst (traceContour imageData visited startX startY)) \<and>
   length (fst (traceContour imageData visited startX startY))
     \<le> width imageData * height imageData + 1 \<and>
   (noWhiteNeighbour imageData (last (fst (traceContour imageData visited startX startY))) \<or>
    (\<exists>d<8. neighbour (last (fst (traceContour imageData visited startX startY))) d
              = (startX, startY)) \<or>
    width imageData * height imageData
      \<le> length (fst (traceContour imageData visited startX startY)))"
proof -
  obtain c v where r: "traceContour imageData visited startX startY = (c, v)"
    by (cases "traceContour imageData visited startX startY")
  from traceLoop_exit [OF r [unfolded traceContour_def]]
    traceContour_length [of imageData visited startX startY]
  show ?thesis
    by (simp add: r)
qed

theorem traceContour_bounded_witness:
  "fst (traceContour overlapImage (replicate 36 0) 2 1) = overlapFirst \<and>
   1 \<le> length overlapFirst \<and>
   length overlapFirst \<le> width overlapImage * height overlapImage + 1 \<and>
   neighbour (last overlapFirst) 1 = (2, 1)"
proof -
  have "neighbour (last overlapFirst) 1 = (2, 1)"
    by (simp add: overlapFirst_def neighbour_def directions_def)
  with traceContour_bounded [of overlapImage "replicate 36 0" 2 1] show ?thesis
    by (simp add: traceContour_overlapImage)
qed

lemma scanContours_overlapImage:
  "scanContours overlapImage = (overlapVisited, [overlapFirst, overlapSecond])"
  by code_simp

text \<open>
  C9. Every point of every contour returned by \<^verbatim>\<open>findContours\<close> lies inside the image.
\<close>

theorem findContours_inside:
  "\<forall>c\<in>set (findContours imageData). \<forall>p\<in>set c.
     0 \<le> fst p \<and> fst p < int (width imageData) \<and> 0 \<le> snd p \<and> snd p < int (height imageData)"
  using scanContours_invariant [of imageData]
  by (simp add: scanInv_def findContours_def inImage_def)

theorem findContours_inside_witness:
  "overlapFirst \<in> set (findContours overlapImage) \<and> (4, 4) \<in> set overlapFirst \<and>
   0 \<le> fst (4 :: int, 4 :: int) \<and> fst (4 :: int, 4 :: int) < int (width overlapImage) \<and>
   0 \<le> snd (4 :: int, 4 :: int) \<and> snd (4 :: int, 4 :: int) < int (height overlapImage)"
proof -
  have c: "overlapFirst \<in> set (findContours overlapImage)"
    by (simp add: findContours_def scanContours_overlapImage)
  have p: "(4, 4) \<in> set overlapFirst"
    by (simp add: overlapFirst_def)
  from findContours_inside [of overlapImage] c p
  have "0 \<le> fst (4 :: int, 4 :: int) \<and> fst (4 :: int, 4 :: int) < int (width overlapImage) \<and>
   0 \<le> snd (4 :: int, 4 :: int) \<and> snd (4 :: int, 4 :: int) < int (height overlapImage)"
    by blast
  with c p show ?thesis by blast
qed

text \<open>
  C2, as stated, fails: the walk never reads the bitmap, so a later walk may run over
  pixels of an earlier contour. On \<open>overlapImage\<close> the tracer returns two different
  contours that share the pixel \<open>(2, 1)\<close> (and others).
\<close>

theorem contours_overlap_counterexample:
  "length (data overlapImage) = 4 * width overlapImage * height overlapImage \<and>
   findContours overlapImage = [overlapFirst, overlapSecond] \<and>
   overlapFirst \<noteq> overlapSecond \<and>
   (2, 1) \<in> set overlapFirst \<and> (2, 1) \<in> set overlapSecond"
  by (simp add: findContours_def scanContours_overlapImage)
     (simp add: overlapImage_def greyImage_def overlapFirst_def overlapSecond_def)

text \<open>
  C2, amended. When the scan ends, every pixel of every returned contour is marked in the
  bitmap, and the first pixel of a returned contour (its seed) occurs in no contour
  returned before it. Nothing is stated about the later pixels of a walk.
\<close>

theorem contours_marked_seeds_fresh:
  assumes "scanContours imageData = (visited, contours)"
  shows "findContours imageData = contours \<and>
         (\<forall>c\<in>set contours. \<forall>p\<in>set c.
            visited ! nat (snd p * int (width imageData) + fst p) = 1) \<and>
         (\<forall>i j. i < j \<and> j < length contours \<longrightarrow> hd (contours ! j) \<notin> set (contours ! i))"
  using scanContours_invariant [of imageData] assms
  by (simp add: scanInv_def findContours_def marked_def)

theorem contours_marked_seeds_fresh_witness:
  "scanContours overlapImage = (overlapVisited, [overlapFirst, overlapSecond]) \<and>
   overlapVisited !
     nat (snd (2 :: int, 1 :: int) * int (width overlapImage) + fst (2 :: int, 1 :: int)) = 1 \<and>
   hd ([overlapFirst, overlapSecond] ! 1) \<notin> set ([overlapFirst, overlapSecond] ! 0)"
proof -
  note r = contours_marked_seeds_fresh [OF scanContours_overlapImage]
  have p: "overlapFirst \<in> set [overlapFirst, overlapSecond]" "(2, 1) \<in> set overlapFirst"
    by (simp_all add: overlapFirst_def)
  from r p have "overlapVisited !
      nat (snd (2 :: int, 1 :: int) * int (width overlapImage) + fst (2 :: int, 1 :: int)) = 1"
    by blast
  moreover from r
  have "hd ([overlapFirst, overlapSecond] ! 1) \<notin> set ([overlapFirst, overlapSecond] ! 0)"
    by force
  ultimately show ?thesis
    using scanContours_overlapImage by blast
qed

end
